theory Spec2Isabelle
  imports Complex_Main "HOL-Library.Log_Nat"
begin

section \<open>JavaScript numbers as the rhythm primitives use them\<close>

text \<open>
  Pulse counters, \<open>ppqn\<close>, bar numbers, iterators and cycle lengths are integer-valued
  JavaScript numbers and are modelled as \<open>int\<close>. A fractional argument (a length in
  beats) is a finite double, modelled as the rational number it denotes. JavaScript
  arithmetic never throws: a remainder by zero is \<open>NaN\<close>, a quotient by zero is \<open>NaN\<close> or
  an infinity. These non-finite results are \<open>None\<close>; \<open>NaN === 0\<close> is false, so \<open>None\<close>
  never equals \<open>Some 0\<close>.
\<close>

definition js_rem :: "int \<Rightarrow> int \<Rightarrow> int option" where
  \<comment> \<open>\<open>a % b\<close>: the remainder of the truncating division, with the sign of \<open>a\<close>.\<close>
  "js_rem a b = (if b = 0 then None else Some (sgn a * (\<bar>a\<bar> mod \<bar>b\<bar>)))"

definition js_floor_quot :: "int \<Rightarrow> int \<Rightarrow> int option" where
  \<comment> \<open>\<open>Math.floor(a / b)\<close> on integers: not finite when \<open>b\<close> is zero. The quotient of two
      integers below \<open>2 ^ 53\<close> in magnitude, once rounded to a double, lies between the
      same two integers as the exact quotient, so the floor is that of the exact one.\<close>
  "js_floor_quot a b = (if b = 0 then None else Some (a div b))"

subsection \<open>Products of doubles\<close>

text \<open>
  A product of two doubles is the exact product rounded to the nearest double (IEEE 754
  binary64: 53 significant bits, ties to the even significand, exponents from \<open>-1022\<close>
  with gradual underflow, overflow to an infinity from \<open>2 ^ 1024\<close>). So the pulse count
  \<open>Math.floor(value * ppqn)\<close> is the floor of the rounded product, which is not always
  the floor of the exact one: the double nearest to \<open>1/3\<close> times 48 is exactly
  \<open>16 - 2 ^ -50\<close>, which rounds to 16.
\<close>

definition pow2 :: "int \<Rightarrow> rat" where
  "pow2 k = (if 0 \<le> k then 2 ^ nat k else 1 / 2 ^ nat (- k))"

definition ilog2 :: "rat \<Rightarrow> int" where
  \<comment> \<open>For \<open>a > 0\<close>, the exponent \<open>e\<close> with \<open>2 ^ e \<le> a < 2 ^ (e + 1)\<close>.\<close>
  "ilog2 a = (if 1 \<le> a then int (floorlog 2 (nat \<lfloor>a\<rfloor>)) - 1
              else - int (floorlog 2 (nat (\<lceil>1 / a\<rceil> - 1))))"

definition round_half_even :: "rat \<Rightarrow> int" where
  "round_half_even y =
     (let f = \<lfloor>y\<rfloor>; d = y - of_int f
      in if d < 1 / 2 then f else if 1 / 2 < d then f + 1 else if even f then f else f + 1)"

definition double_round :: "rat \<Rightarrow> rat option" where
  \<comment> \<open>The double nearest to \<open>x\<close>; \<open>None\<close> is an infinity.\<close>
  "double_round x =
     (if x = 0 then Some 0
      else
        (let a = \<bar>x\<bar>;
             e = max (ilog2 a) (- 1022);
             q = pow2 (e - 52);
             r = of_int (round_half_even (a / q)) * q
         in if 2 ^ 1024 \<le> r then None else Some (sgn x * r)))"

definition js_floor_mul :: "rat \<Rightarrow> int \<Rightarrow> int option" where
  \<comment> \<open>\<open>Math.floor(v * n)\<close> for a double \<open>v\<close> and an integer \<open>n\<close>; \<open>None\<close> is an infinity.\<close>
  "js_floor_mul v n = map_option floor (double_round (v * of_int n))"

definition one_third :: rat where
  \<comment> \<open>The double that \<open>1/3\<close> evaluates to.\<close>
  "one_third = 6004799503160661 / 18014398509481984"

section \<open>The clock\<close>

record clock =
  pulses_since_origin :: int
  ppqn :: int
  time_position_bar :: int
  time_position_pulse :: int
  next_beat_in_ticks :: int
  pulse_duration :: rat

definition epulse :: "clock \<Rightarrow> int" where
  "epulse c = pulses_since_origin c"

definition api_ppqn :: "clock \<Rightarrow> int" where
  \<comment> \<open>\<open>ppqn()\<close> called without an argument.\<close>
  "api_ppqn c = ppqn c"

definition bar :: "clock \<Rightarrow> int" where
  "bar c = time_position_bar c"

section \<open>Time filters\<close>

definition mod_api :: "clock \<Rightarrow> rat list \<Rightarrow> bool" where
  \<comment> \<open>A remainder by an infinity is the dividend itself.\<close>
  "mod_api c n =
     (let results = map (\<lambda>value.
                      (case js_floor_mul value (api_ppqn c) of
                         None \<Rightarrow> Some (epulse c)
                       | Some m \<Rightarrow> js_rem (epulse c) m) = Some 0) n
      in list_ex (\<lambda>value. value = True) results)"

definition div_api :: "clock \<Rightarrow> rat \<Rightarrow> bool" where
  \<comment> \<open>A quotient by an infinity is zero.\<close>
  "div_api c chunk =
     (let time_pos = epulse c;
          current_chunk = (case js_floor_mul chunk (api_ppqn c) of
                             None \<Rightarrow> Some 0
                           | Some m \<Rightarrow> js_floor_quot time_pos m)
      in Option.bind current_chunk (\<lambda>q. js_rem q 2) = Some 0)"

datatype js_error = RangeError

definition array_keys :: "int \<Rightarrow> js_error + int list" where
  \<comment> \<open>\<open>[...Array(n).keys()]\<close>: \<open>Array(n)\<close> throws a RangeError unless \<open>n\<close> is a valid
      array length, otherwise the keys are \<open>0, ..., n - 1\<close>.\<close>
  "array_keys n = (if n < 0 \<or> 2 ^ 32 \<le> n then Inl RangeError else Inr (map int [0..<nat n]))"

definition onbar :: "int \<Rightarrow> int list \<Rightarrow> js_error + bool" where
  "onbar n bar_args =
     (case array_keys n of
        Inl e \<Rightarrow> Inl e
      | Inr ks \<Rightarrow>
          (let bar_list = map (\<lambda>i. i + 1) ks
           in Inr (list_ex (\<lambda>b. case js_rem b n of None \<Rightarrow> False
                                   | Some r \<Rightarrow> r \<in> set bar_list) bar_args)))"

text \<open>
  The gate as the specification words it, for comparison with the source's \<open>onbar\<close>:
  the current bar and every target are reduced into \<open>1..n\<close> by \<open>((b - 1) mod n) + 1\<close>.
\<close>

definition bar_reduce :: "int \<Rightarrow> int \<Rightarrow> int" where
  "bar_reduce n b = ((b - 1) mod n) + 1"

definition onbar_spec :: "clock \<Rightarrow> int \<Rightarrow> int list \<Rightarrow> bool" where
  "onbar_spec c n bar_args = list_ex (\<lambda>b. bar_reduce n (bar c) = bar_reduce n b) bar_args"

section \<open>Rhythmic generators\<close>

definition js_index :: "'a list \<Rightarrow> int option \<Rightarrow> 'a option" where
  \<comment> \<open>\<open>xs[k]\<close>: \<open>undefined\<close> when \<open>k\<close> is \<open>NaN\<close>, negative or past the end.\<close>
  "js_index xs k =
     (case k of
        None \<Rightarrow> None
      | Some i \<Rightarrow> if 0 \<le> i \<and> i < int (length xs) then Some (xs ! nat i) else None)"

definition js_slice :: "'a list \<Rightarrow> int \<Rightarrow> int \<Rightarrow> 'a list" where
  \<comment> \<open>\<open>xs.slice(start, fin)\<close>: a negative bound counts from the end, both are clamped.\<close>
  "js_slice xs start fin =
     (let len = int (length xs);
          k = (if start < 0 then max (len + start) 0 else min start len);
          final = (if fin < 0 then max (len + fin) 0 else min fin len)
      in take (nat (final - k)) (drop (nat k) xs))"

definition js_slice_from :: "'a list \<Rightarrow> int \<Rightarrow> 'a list" where
  \<comment> \<open>\<open>xs.slice(start)\<close>\<close>
  "js_slice_from xs start = js_slice xs start (int (length xs))"

definition js_gt :: "int option \<Rightarrow> int option \<Rightarrow> bool" where
  \<comment> \<open>\<open>a > b\<close> on numbers: false as soon as one side is \<open>NaN\<close> or \<open>undefined\<close>.\<close>
  "js_gt a b = (case (a, b) of (Some x, Some y) \<Rightarrow> x > y | _ \<Rightarrow> False)"

definition startsDescent :: "int option list \<Rightarrow> int \<Rightarrow> bool" where
  "startsDescent list i =
     (let len = int (length list);
          nextIndex = js_rem (i + 1) len
      in (if js_gt (Option.bind (js_index list (Some i)) id)
                   (Option.bind (js_index list nextIndex) id)
          then True else False))"

definition euclidean_cycle :: "int \<Rightarrow> int \<Rightarrow> int \<Rightarrow> bool list" where
  \<comment> \<open>\<open>Array.from({length}, f)\<close> has \<open>length\<close> elements, none when \<open>length\<close> is negative.\<close>
  "euclidean_cycle pulses len rot =
     (if pulses = len then replicate (nat len) True
      else if pulses \<ge> len then [True]
      else
        (let resList = map (\<lambda>i. Option.bind (js_rem (pulses * (int i - 1)) len)
                                   (\<lambda>r. js_rem (r + len) len)) [0..<nat len];
             cycle = map (\<lambda>i. startsDescent resList (int i)) [0..<length resList]
         in if rot \<noteq> 0 then js_slice_from cycle rot @ js_slice cycle 0 rot
            else cycle))"

definition euclid :: "int \<Rightarrow> int \<Rightarrow> int \<Rightarrow> int \<Rightarrow> bool option" where
  \<comment> \<open>\<open>None\<close> is \<open>undefined\<close>, read past the cycle.\<close>
  "euclid iterator pulses len rot =
     js_index (euclidean_cycle pulses len rot) (js_rem iterator len)"

fun bin_digits :: "nat \<Rightarrow> string" where
  "bin_digits n =
     (if n < 2 then [if n = 0 then CHR ''0'' else CHR ''1'']
      else bin_digits (n div 2) @ [if even n then CHR ''0'' else CHR ''1''])"

declare bin_digits.simps [simp del]

definition toString2 :: "int \<Rightarrow> string" where
  \<comment> \<open>\<open>n.toString(2)\<close> on an integer: the binary digits, most significant first, after
      a minus sign when \<open>n\<close> is negative.\<close>
  "toString2 n = (if n < 0 then CHR ''-'' # bin_digits (nat (- n)) else bin_digits (nat n))"

definition bin :: "int \<Rightarrow> int \<Rightarrow> bool option" where
  "bin iterator n =
     (let convert = toString2 n;
          tobin = map (\<lambda>x. x = CHR ''1'') convert
      in js_index tobin (js_rem iterator (int (length tobin))))"

section \<open>Counters\<close>

record counter_entry =
  cvalue :: int
  cstep :: int
  climit :: "int option"

type_synonym counters = "string \<rightharpoonup> counter_entry"

definition no_counters :: counters where
  \<comment> \<open>\<open>counters = {}\<close>\<close>
  "no_counters = Map.empty"

definition counter :: "counters \<Rightarrow> string \<Rightarrow> int option \<Rightarrow> int option \<Rightarrow> counters \<times> int" where
  \<comment> \<open>An omitted \<open>limit\<close> or \<open>step\<close> is \<open>undefined\<close>, here \<open>None\<close>; \<open>cs name = None\<close>
      is \<open>!(name in this.counters)\<close>. The updated registry is returned with the value.\<close>
  "counter cs name limit step =
     (case cs name of
        None \<Rightarrow>
          (let e = \<lparr>cvalue = 0, cstep = (case step of None \<Rightarrow> 1 | Some s \<Rightarrow> s), climit = limit\<rparr>
           in (cs(name \<mapsto> e), cvalue e))
      | Some e0 \<Rightarrow>
          (let e1 = (if climit e0 \<noteq> limit then e0\<lparr>cvalue := 0, climit := limit\<rparr> else e0);
               e2 = (if Some (cstep e1) \<noteq> step
                     then e1\<lparr>cstep := (case step of None \<Rightarrow> cstep e1 | Some s \<Rightarrow> s)\<rparr>
                     else e1);
               e3 = e2\<lparr>cvalue := cvalue e2 + cstep e2\<rparr>;
               e4 = (case climit e3 of
                       None \<Rightarrow> e3
                     | Some l \<Rightarrow> if cvalue e3 > l then e3\<lparr>cvalue := 0\<rparr> else e3)
           in (cs(name \<mapsto> e4), cvalue e4)))"

fun counter_calls :: "counters \<Rightarrow> string \<Rightarrow> int option \<Rightarrow> int option \<Rightarrow> nat \<Rightarrow> int list" where
  \<comment> \<open>The values returned by \<open>k\<close> successive calls with the same arguments.\<close>
  "counter_calls cs name limit step 0 = []"
| "counter_calls cs name limit step (Suc k) =
     (case counter cs name limit step of
        (cs', v) \<Rightarrow> v # counter_calls cs' name limit step k)"

section \<open>The pattern player\<close>

record player =
  firstCallTime :: int
  lastCallTime :: int
  waitTime :: int
  played :: bool
  current :: "rat option"
  index :: int
  ziffers_notStarted :: bool

text \<open>
  \<open>current\<close> holds the duration of the current pattern element, \<open>None\<close> while the field
  is still undefined. The pattern cursor belongs to the zifferjs library; the player
  only asks it whether it has started, which is the last field.
\<close>

definition new_Player :: player where
  \<comment> \<open>The field initialisers of the class, around a cursor that has not started.\<close>
  "new_Player = \<lparr>firstCallTime = 0, lastCallTime = 0, waitTime = 0, played = False,
                  current = None, index = - 1, ziffers_notStarted = True\<rparr>"

definition notStarted :: "player \<Rightarrow> bool" where
  "notStarted p = ziffers_notStarted p"

definition convertPulseToSecond :: "clock \<Rightarrow> int \<Rightarrow> rat" where
  \<comment> \<open>Modelled from the spec: the Clock class is not among the sources; section 4.1 gives
      \<open>pulseToSeconds(p) = p * pulse_duration\<close>.\<close>
  "convertPulseToSecond c pulse = of_int pulse * pulse_duration c"

definition pulseToSecond :: "clock \<Rightarrow> int \<Rightarrow> rat" where
  "pulseToSecond c pulse = convertPulseToSecond c pulse"

definition rewind_check :: "clock \<Rightarrow> player \<Rightarrow> player" where
  \<comment> \<open>The first statement of \<open>areWeThereYet\<close>, under the comment "If clock has stopped".\<close>
  "rewind_check c p =
     (if pulses_since_origin c < lastCallTime p then p\<lparr>lastCallTime := 0, index := 0\<rparr> else p)"

definition howAboutNow :: "clock \<Rightarrow> player \<Rightarrow> bool" where
  "howAboutNow c p =
     ((notStarted p \<and>
       (time_position_pulse c = 1 \<or> pulses_since_origin c + 1 \<ge> next_beat_in_ticks c) \<and>
       (pulses_since_origin c + 1 \<ge> firstCallTime p + waitTime p))
      \<or>
      (case current p of
         None \<Rightarrow> False
       | Some duration \<Rightarrow>
           pulseToSecond c (pulses_since_origin c + 1) \<ge>
             pulseToSecond c (lastCallTime p) + (duration * 4) * pulseToSecond c (api_ppqn c)))"

definition areWeThereYet :: "clock \<Rightarrow> player \<Rightarrow> player \<times> bool" where
  "areWeThereYet c p0 =
     (let p1 = rewind_check c p0;
          now = howAboutNow c p1;
          p2 = p1\<lparr>index := (if now then index p1 + 1 else index p1)\<rparr>;
          p3 = (if now \<and> notStarted p2 then p2\<lparr>firstCallTime := pulses_since_origin c + 1\<rparr>
                else p2)
      in (p3, now))"

section \<open>Array extensions\<close>

text \<open>
  Arrays are mutable objects: a heap is the list of the arrays allocated so far and a
  reference is a position in it. Every operation returns the heap it leaves.
\<close>

type_synonym 'a heap = "'a list list"

definition array_from :: "'a heap \<Rightarrow> nat \<Rightarrow> 'a heap \<times> nat" where
  \<comment> \<open>\<open>Array.from(a)\<close>: a fresh array with the elements of \<open>a\<close>.\<close>
  "array_from h a = (h @ [h ! a], length h)"

definition array_reverse :: "'a heap \<Rightarrow> nat \<Rightarrow> 'a heap \<times> nat" where
  \<comment> \<open>\<open>a.reverse()\<close>: reverses \<open>a\<close> in place and returns \<open>a\<close> itself.\<close>
  "array_reverse h a = (h[a := rev (h ! a)], a)"

definition array_concat :: "'a heap \<Rightarrow> nat \<Rightarrow> nat \<Rightarrow> 'a heap \<times> nat" where
  \<comment> \<open>\<open>a.concat(b)\<close>: a fresh array.\<close>
  "array_concat h a b = (h @ [h ! a @ h ! b], length h)"

definition palindrome :: "'a heap \<Rightarrow> nat \<Rightarrow> 'a heap \<times> nat" where
  "palindrome h self =
     (case array_from h self of
        (h1, left_to_right) \<Rightarrow>
          (case array_reverse h1 self of
             (h2, reversed) \<Rightarrow>
               (case array_from h2 reversed of
                  (h3, right_to_left) \<Rightarrow> array_concat h3 left_to_right right_to_left)))"

section \<open>Example states\<close>

definition clock_at :: "int \<Rightarrow> int \<Rightarrow> int \<Rightarrow> clock" where
  \<comment> \<open>An example state of the clock: \<open>p\<close> pulses after the origin, in bar \<open>b\<close>, with
      \<open>q\<close> pulses per quarter note at 120 beats per minute.\<close>
  "clock_at p q b =
     \<lparr>pulses_since_origin = p, ppqn = q, time_position_bar = b,
      time_position_pulse = p mod q, next_beat_in_ticks = (p div q + 1) * q,
      pulse_duration = 60 / (120 * of_int q)\<rparr>"

definition playing_player :: player where
  \<comment> \<open>A player in the middle of its pattern: it last played at pulse 100 an element
      lasting a quarter of a whole note, and has played three elements so far.\<close>
  "playing_player = \<lparr>firstCallTime = 1, lastCallTime = 100, waitTime = 0, played = False,
                      current = Some (1 / 4), index = 2, ziffers_notStarted = False\<rparr>"

section \<open>Remainders\<close>

lemma js_rem_zero_iff: "js_rem a b = Some 0 \<longleftrightarrow> b \<noteq> 0 \<and> a mod b = 0"
proof (cases "b = 0")
  case True
  then show ?thesis by (simp add: js_rem_def)
next
  case False
  have "\<bar>a\<bar> mod \<bar>b\<bar> = 0 \<longleftrightarrow> a mod b = 0"
    by (simp add: mod_eq_0_iff_dvd)
  moreover have "sgn a * (\<bar>a\<bar> mod \<bar>b\<bar>) = 0 \<longleftrightarrow> \<bar>a\<bar> mod \<bar>b\<bar> = 0"
    by (cases "a = 0") (simp_all add: sgn_0_0)
  ultimately show ?thesis using False by (simp add: js_rem_def)
qed

lemma js_rem_two_iff: "js_rem q 2 = Some 0 \<longleftrightarrow> even q"
  by (simp add: js_rem_zero_iff even_iff_mod_2_eq_zero)

lemma js_rem_nonneg: "0 \<le> a \<Longrightarrow> 0 < b \<Longrightarrow> js_rem a b = Some (a mod b)"
  by (cases "a = 0") (simp_all add: js_rem_def sgn_if)

lemma span_div:
  fixes p m j :: int
  assumes "0 < m" "j * m \<le> p" "p < (j + 1) * m"
  shows "p div m = j"
proof -
  have lo: "0 \<le> p - j * m" using assms(2) by simp
  have hi: "p - j * m < m" using assms(3) by (simp add: algebra_simps)
  have "(p - j * m) div m = 0" using lo hi by (rule div_pos_pos_trivial)
  moreover have "(p - j * m + j * m) div m = j + (p - j * m) div m"
    using assms(1) by (simp only: div_mult_self1 [of m "p - j * m" j])
  ultimately show ?thesis by simp
qed

section \<open>Rounded products\<close>

lemma round_half_even_of_int: "round_half_even (of_int n) = n"
  by (simp add: round_half_even_def)

lemma double_round_of_int:
  assumes "1 \<le> k" "k < 2 ^ 53"
  shows "double_round (of_int k) = Some (of_int k)"
proof -
  let ?w = "floorlog 2 (nat k)"
  have kpos: "0 < nat k" using assms(1) by simp
  have b: "2 ^ (?w - 1) \<le> nat k" using floorlog_bounds [of "nat k" 2] kpos by simp
  have "nat k < 2 ^ 53" using assms by (simp add: nat_less_iff)
  then have "(2::nat) ^ (?w - 1) < 2 ^ 53" using b by linarith
  then have w53: "?w - 1 < 53"
    by (rule power_less_imp_less_exp [of 2, rotated]) simp
  define s where "s = 53 - ?w"
  have e: "ilog2 (of_int k) = int ?w - 1" using assms(1) by (simp add: ilog2_def)
  have m: "max (int ?w - 1) (- 1022) = int ?w - 1" by simp
  have q: "pow2 (int ?w - 1 - 52) = 1 / 2 ^ s"
  proof (cases "?w = 53")
    case True
    then show ?thesis by (simp add: pow2_def s_def)
  next
    case False
    with w53 have "?w < 53" by simp
    then have "nat (53 - int ?w) = 53 - ?w" by simp
    then show ?thesis using \<open>?w < 53\<close> by (simp add: pow2_def s_def)
  qed
  have quo: "\<bar>rat_of_int k\<bar> / (1 / 2 ^ s) = of_int (k * 2 ^ s)" using assms(1) by simp
  have r: "of_int (round_half_even (\<bar>rat_of_int k\<bar> / (1 / 2 ^ s))) * (1 / 2 ^ s) = rat_of_int k"
    by (simp only: quo round_half_even_of_int) simp
  have small: "\<not> (2 ^ 1024 \<le> rat_of_int k)"
  proof -
    have "rat_of_int k < of_int (2 ^ 53)" using assms(2) by (simp only: of_int_less_iff)
    also have "\<dots> \<le> 2 ^ 1024" by simp
    finally show ?thesis by simp
  qed
  have nz: "rat_of_int k \<noteq> 0" using assms(1) by simp
  have sg: "sgn (rat_of_int k) = 1" using assms(1) by simp
  have ab: "\<bar>rat_of_int k\<bar> = rat_of_int k" using assms(1) by simp
  show ?thesis
    unfolding double_round_def Let_def ab e m q
    using nz small sg r [unfolded ab] by simp
qed

lemma js_floor_mul_one:
  assumes "1 \<le> k" "k < 2 ^ 53"
  shows "js_floor_mul 1 k = Some k"
  using double_round_of_int [OF assms] by (simp add: js_floor_mul_def)

lemma js_floor_mul_two:
  assumes "1 \<le> k" "2 * k < 2 ^ 53"
  shows "js_floor_mul 2 k = Some (2 * k)"
proof -
  have "1 \<le> 2 * k" using assms(1) by simp
  then have dr: "double_round (of_int (2 * k)) = Some (of_int (2 * k))"
    using assms(2) by (rule double_round_of_int)
  have eq: "(2 :: rat) * of_int k = of_int (2 * k)" by simp
  show ?thesis
    unfolding js_floor_mul_def eq dr by (simp only: option.map floor_of_int)
qed

lemma one_third_is_double: "double_round (1 / 3) = Some one_third"
  by code_simp

lemma js_floor_mul_one_third: "js_floor_mul one_third 48 = Some 16"
  by code_simp

lemma js_floor_mul_half: "js_floor_mul (1 / 2) 1 = Some 0"
  by code_simp

text \<open>
  The pulse counts of \<open>1/6\<close> and \<open>1/48\<close> of a beat at 48 pulses per quarter note, and
  of \<open>0.29\<close> at 100: each quotient is first rounded to its double, then the product is
  rounded. The exact products of these doubles lie just below 8, 1 and 29.
\<close>

lemma rounded_pulse_counts:
  "Option.bind (double_round (1 / 6)) (\<lambda>v. js_floor_mul v 48) = Some 8 \<and>
   Option.bind (double_round (1 / 48)) (\<lambda>v. js_floor_mul v 48) = Some 1 \<and>
   Option.bind (double_round (29 / 100)) (\<lambda>v. js_floor_mul v 100) = Some 28"
  by code_simp

section \<open>The modulo gate\<close>

lemma mod_api_dvd:
  "mod_api c vs \<longleftrightarrow>
     (\<exists>v \<in> set vs. case js_floor_mul v (ppqn c) of
                      None \<Rightarrow> pulses_since_origin c = 0
                    | Some m \<Rightarrow> m \<noteq> 0 \<and> pulses_since_origin c mod m = 0)"
  by (auto simp add: mod_api_def api_ppqn_def epulse_def js_rem_zero_iff list_ex_iff
      split: option.splits)

text \<open>
  Claim C3. A value whose pulse count \<open>Math.floor(v * ppqn)\<close>, as the source computes
  it, is zero makes \<open>mod(v)\<close> false at every clock position: the remainder by zero is
  \<open>NaN\<close>, which is not \<open>0\<close>, and nothing is thrown. Beside other values, such a value
  contributes nothing.
\<close>

theorem mod_degenerate_is_false:
  assumes "js_floor_mul v (ppqn c) = Some 0"
  shows "mod_api c [v] = False \<and> mod_api c (v # vs) = mod_api c vs"
  using assms by (simp add: mod_api_dvd)

theorem mod_degenerate_is_false_witness:
  "js_floor_mul (1 / 2) (ppqn (clock_at 7 1 1)) = Some 0 \<and>
   mod_api (clock_at 7 1 1) [1 / 2] = False \<and>
   mod_api (clock_at 7 1 1) [1 / 2, 1] = mod_api (clock_at 7 1 1) [1]"
proof -
  have h: "js_floor_mul (1 / 2) (ppqn (clock_at 7 1 1)) = Some 0"
    by (simp add: clock_at_def js_floor_mul_half)
  show ?thesis using h mod_degenerate_is_false [OF h, of "[1]"] by simp
qed

text \<open>
  Claim C5. \<open>mod(...values)\<close> is true exactly when, for one of the values, the pulse
  count \<open>m = Math.floor(value * ppqn)\<close>, as the source computes it, is a modulus (not
  zero) that leaves remainder zero on \<open>pulses_since_origin\<close>; the remainder by an
  infinite \<open>m\<close> is the pulse count itself. The values are OR-ed. With \<open>ppqn\<close> an integer
  from 1 and below \<open>2 ^ 53\<close>, \<open>mod(1)\<close> is true exactly at the multiples of \<open>ppqn\<close>.
\<close>

theorem mod_true_iff_some_value_divides:
  "(mod_api c vs \<longleftrightarrow>
      (\<exists>v \<in> set vs. case js_floor_mul v (ppqn c) of
                       None \<Rightarrow> pulses_since_origin c = 0
                     | Some m \<Rightarrow> m \<noteq> 0 \<and> pulses_since_origin c mod m = 0)) \<and>
   (mod_api c (v # vs) \<longleftrightarrow> mod_api c [v] \<or> mod_api c vs) \<and>
   (1 \<le> ppqn c \<and> ppqn c < 2 ^ 53 \<longrightarrow>
      (mod_api c [1] \<longleftrightarrow> ppqn c dvd pulses_since_origin c))"
proof -
  have one: "mod_api c [1] \<longleftrightarrow> ppqn c dvd pulses_since_origin c"
    if "1 \<le> ppqn c" "ppqn c < 2 ^ 53"
    using that js_floor_mul_one [OF that] by (simp add: mod_api_dvd mod_eq_0_iff_dvd)
  have cons: "mod_api c (v # vs) \<longleftrightarrow> mod_api c [v] \<or> mod_api c vs"
    by (simp add: mod_api_dvd)
  show ?thesis using one cons mod_api_dvd [of c vs] by blast
qed

theorem mod_true_iff_some_value_divides_witness:
  "1 \<le> ppqn (clock_at 96 48 1) \<and> ppqn (clock_at 96 48 1) < 2 ^ 53 \<and>
   mod_api (clock_at 96 48 1) [1] \<and>
   1 \<le> ppqn (clock_at 97 48 1) \<and> ppqn (clock_at 97 48 1) < 2 ^ 53 \<and>
   \<not> mod_api (clock_at 97 48 1) [1] \<and>
   js_floor_mul one_third (ppqn (clock_at 16 48 1)) = Some 16 \<and>
   mod_api (clock_at 16 48 1) [one_third]"
  using mod_true_iff_some_value_divides [of "clock_at 96 48 1" "[]" 1]
    mod_true_iff_some_value_divides [of "clock_at 97 48 1" "[]" 1]
    mod_true_iff_some_value_divides [of "clock_at 16 48 1" "[one_third]" 1]
  by (simp add: clock_at_def js_floor_mul_one_third)

section \<open>The flip-flop gate\<close>

lemma div_api_even:
  assumes "js_floor_mul chunk (ppqn c) = Some m" "0 < m"
  shows "div_api c chunk \<longleftrightarrow> even (pulses_since_origin c div m)"
  using assms
  by (simp add: div_api_def api_ppqn_def epulse_def js_floor_quot_def js_rem_two_iff)

lemma div_api_two_span:
  assumes "1 \<le> ppqn c" "2 * ppqn c < 2 ^ 53" "j * (2 * ppqn c) \<le> pulses_since_origin c"
    "pulses_since_origin c < (j + 1) * (2 * ppqn c)"
  shows "div_api c 2 \<longleftrightarrow> even j"
proof -
  have fl: "js_floor_mul 2 (ppqn c) = Some (2 * ppqn c)"
    using assms(1) assms(2) by (rule js_floor_mul_two)
  have pos: "0 < 2 * ppqn c" using assms(1) by simp
  have "pulses_since_origin c div (2 * ppqn c) = j"
    using pos assms(3) assms(4) by (rule span_div)
  then show ?thesis using div_api_even [OF fl pos] by simp
qed

text \<open>
  Claim C7. For a positive chunk whose pulse count \<open>m = Math.floor(chunk * ppqn)\<close>, as
  the source computes it, is positive, \<open>div(chunk)\<close> is true exactly when
  \<open>floor(p / m)\<close> is even, \<open>p\<close> the pulses since the origin. For \<open>div(2)\<close>, with \<open>ppqn\<close>
  from 1 and \<open>2 * ppqn\<close> below \<open>2 ^ 53\<close>, the spans of \<open>2 * ppqn\<close> pulses alternate for
  ever: on the \<open>j\<close>-th span \<open>[j * 2 * ppqn, (j + 1) * 2 * ppqn)\<close> the gate is true exactly
  when \<open>j\<close> is even, so it is true on \<open>[0, 2 * ppqn)\<close>, false on \<open>[2 * ppqn, 4 * ppqn)\<close>
  and true again on \<open>[4 * ppqn, 6 * ppqn)\<close>.
\<close>

theorem div_flip_flop:
  "(0 < chunk \<and> js_floor_mul chunk (ppqn c) = Some m \<and> 0 < m \<longrightarrow>
      (div_api c chunk \<longleftrightarrow> even (pulses_since_origin c div m))) \<and>
   (1 \<le> ppqn c \<and> 2 * ppqn c < 2 ^ 53 \<and> j * (2 * ppqn c) \<le> pulses_since_origin c \<and>
      pulses_since_origin c < (j + 1) * (2 * ppqn c) \<longrightarrow>
      (div_api c 2 \<longleftrightarrow> even j))"
  using div_api_even [of chunk c m] div_api_two_span [of c j] by blast

theorem div_flip_flop_witness:
  "0 < one_third \<and> js_floor_mul one_third (ppqn (clock_at 15 48 1)) = Some 16 \<and> (0 :: int) < 16 \<and>
   div_api (clock_at 15 48 1) one_third \<and>
   1 \<le> ppqn (clock_at 100 48 2) \<and> 2 * ppqn (clock_at 100 48 2) < 2 ^ 53 \<and>
   1 * (2 * ppqn (clock_at 100 48 2)) \<le> pulses_since_origin (clock_at 100 48 2) \<and>
   pulses_since_origin (clock_at 100 48 2) < (1 + 1) * (2 * ppqn (clock_at 100 48 2)) \<and>
   \<not> div_api (clock_at 100 48 2) 2"
proof -
  have pos: "0 < one_third" by (simp add: one_third_def)
  show ?thesis
    using pos div_flip_flop [of one_third "clock_at 15 48 1" 16 0]
      div_flip_flop [of 2 "clock_at 100 48 2" 0 1]
    by (simp add: clock_at_def js_floor_mul_one_third)
qed

section \<open>The bar gate\<close>

text \<open>
  Claim C2. The documentation of \<open>onbar\<close> gives \<open>onbar(5, 1, 4)\<close> as true on bars 1
  and 4 and false the rest of the time, which is what the specification's reduction
  says. The source never reads the clock: it only tests the targets against \<open>1..n\<close>, so
  in bar 2 the call is still true.
\<close>

theorem onbar_ignores_current_bar:
  "onbar 5 [1, 4] = Inr True \<and> \<not> onbar_spec (clock_at 0 48 2) 5 [1, 4]"
  by (simp add: onbar_def array_keys_def js_rem_def upt_conv_Cons
      onbar_spec_def bar_reduce_def bar_def clock_at_def)

section \<open>Euclidean cycles\<close>

text \<open>
  Claim C6. \<open>euclid(i, 5, 8, 0)\<close> for \<open>i = 0..7\<close> is the cycle below, with exactly five
  true entries. The function reads neither the clock nor any registry: its value is a
  function of its four arguments alone.
\<close>

theorem euclid_5_8_cycle:
  "map (\<lambda>i. euclid i 5 8 0) [0, 1, 2, 3, 4, 5, 6, 7]
     = map Some [True, False, True, False, True, True, False, True] \<and>
   length (filter (\<lambda>b. b = Some True) (map (\<lambda>i. euclid i 5 8 0) [0, 1, 2, 3, 4, 5, 6, 7])) = 5"
  by code_simp

text \<open>
  Claim C9. When the number of pulses equals the cycle length \<open>n \<ge> 1\<close>, \<open>euclid\<close> is true
  at every iterator \<open>i \<ge> 0\<close>, whatever the rotation.
\<close>

theorem euclid_full_cycle_true:
  assumes "1 \<le> n" "0 \<le> i"
  shows "euclid i n n r = Some True"
proof -
  have "js_rem i n = Some (i mod n)" using assms by (simp add: js_rem_nonneg)
  moreover have "0 \<le> i mod n" "i mod n < n" using assms(1) by simp_all
  ultimately show ?thesis
    using assms(1) by (simp add: euclid_def euclidean_cycle_def js_index_def)
qed

theorem euclid_full_cycle_true_witness:
  "(1 :: int) \<le> 4 \<and> (0 :: int) \<le> 7 \<and> euclid 7 4 4 3 = Some True"
  using euclid_full_cycle_true [of 4 7 3] by simp

section \<open>Binary cycles\<close>

lemma bin_digits_nonempty: "bin_digits n \<noteq> []"
  by (subst bin_digits.simps) simp

lemma bin_digits_bounds:
  "1 \<le> n \<Longrightarrow> 2 ^ (length (bin_digits n) - 1) \<le> n \<and> n < 2 ^ length (bin_digits n)"
proof (induction n rule: bin_digits.induct)
  case (1 n)
  show ?case
  proof (cases "n < 2")
    case True
    with "1.prems" have "n = 1" by simp
    then show ?thesis by (simp add: bin_digits.simps)
  next
    case False
    let ?ds = "bin_digits (n div 2)"
    from False have half: "1 \<le> n div 2" by simp
    from "1.IH" [OF False half]
    have lo: "2 ^ (length ?ds - 1) \<le> n div 2" and hi: "n div 2 < 2 ^ length ?ds" by simp_all
    have pos: "0 < length ?ds" using bin_digits_nonempty [of "n div 2"] by simp
    have len: "length (bin_digits n) = Suc (length ?ds)"
      using False by (subst bin_digits.simps) simp
    have "(2::nat) ^ length ?ds = 2 * 2 ^ (length ?ds - 1)"
      using pos by (cases "length ?ds") simp_all
    then have "(2::nat) ^ length ?ds \<le> 2 * (n div 2)" using lo by simp
    then have a: "2 ^ length ?ds \<le> n" by linarith
    have b: "n < 2 * 2 ^ length ?ds" using hi by linarith
    show ?thesis using a b by (simp add: len)
  qed
qed

lemma bin_digits_nth:
  "k < length (bin_digits n) \<Longrightarrow>
     bin_digits n ! k = (if bit n (length (bin_digits n) - 1 - k) then CHR ''1'' else CHR ''0'')"
proof (induction n arbitrary: k rule: bin_digits.induct)
  case (1 n)
  show ?case
  proof (cases "n < 2")
    case True
    then have "n = 0 \<or> n = 1" by auto
    moreover have "bin_digits 0 = ''0''" by (subst bin_digits.simps) simp
    moreover have "bin_digits 1 = ''1''" by (subst bin_digits.simps) simp
    ultimately show ?thesis using "1.prems" by (auto simp add: bit_0)
  next
    case False
    let ?ds = "bin_digits (n div 2)"
    have eq: "bin_digits n = ?ds @ [if even n then CHR ''0'' else CHR ''1'']"
      using False by (subst bin_digits.simps) simp
    have len: "length (bin_digits n) = Suc (length ?ds)" by (simp add: eq)
    show ?thesis
    proof (cases "k < length ?ds")
      case True
      from "1.IH" [OF False True]
      have "?ds ! k = (if bit (n div 2) (length ?ds - 1 - k) then CHR ''1'' else CHR ''0'')" .
      moreover have "length (bin_digits n) - 1 - k = Suc (length ?ds - 1 - k)"
        using True by (simp add: len)
      ultimately show ?thesis using True by (simp add: eq nth_append bit_Suc)
    next
      case False
      with "1.prems" have "k = length ?ds" by (simp add: len)
      then show ?thesis by (simp add: eq len nth_append bit_0)
    qed
  qed
qed

lemma toString2_digits:
  assumes "1 \<le> n"
  shows "toString2 n = map (\<lambda>k. if bit n (length (toString2 n) - 1 - k) then CHR ''1'' else CHR ''0'')
                         [0..<length (toString2 n)]"
proof -
  have ts: "toString2 n = bin_digits (nat n)" using assms by (simp add: toString2_def)
  have "bin_digits (nat n) ! k
          = (if bit n (length (bin_digits (nat n)) - 1 - k) then CHR ''1'' else CHR ''0'')"
    if "k < length (bin_digits (nat n))" for k
    using that assms bin_digits_nth [of k "nat n"] by (simp add: bit_nat_iff)
  then have "bin_digits (nat n)
      = map (\<lambda>k. if bit n (length (bin_digits (nat n)) - 1 - k) then CHR ''1'' else CHR ''0'')
          [0..<length (bin_digits (nat n))]"
    by (intro nth_equalityI) simp_all
  then show ?thesis by (simp only: ts)
qed

lemma toString2_bounds:
  assumes "1 \<le> n"
  shows "2 ^ (length (toString2 n) - 1) \<le> n \<and> n < 2 ^ length (toString2 n)"
proof -
  have ts: "toString2 n = bin_digits (nat n)" using assms by (simp add: toString2_def)
  have "1 \<le> nat n" using assms by simp
  then have "2 ^ (length (bin_digits (nat n)) - 1) \<le> nat n"
    and "nat n < 2 ^ length (bin_digits (nat n))"
    using bin_digits_bounds [of "nat n"] by simp_all
  then have "int (2 ^ (length (bin_digits (nat n)) - 1)) \<le> n"
    and "n < int (2 ^ length (bin_digits (nat n)))"
    using assms by linarith+
  then show ?thesis by (simp add: ts)
qed

lemma bin_reads_bit:
  assumes "0 \<le> i" "1 \<le> n"
  shows "bin i n = Some (bit n (length (toString2 n) - 1 - nat (i mod int (length (toString2 n)))))"
proof -
  let ?L = "length (toString2 n)"
  have ts: "toString2 n = bin_digits (nat n)" using assms(2) by (simp add: toString2_def)
  have pos: "0 < int ?L" using bin_digits_nonempty [of "nat n"] by (simp add: ts)
  let ?k = "nat (i mod int ?L)"
  have k: "?k < ?L" using pos by (simp add: nat_less_iff)
  have r: "js_rem i (int ?L) = Some (i mod int ?L)" using assms(1) pos by (rule js_rem_nonneg)
  have "bin i n = Some (toString2 n ! ?k = CHR ''1'')"
    using k pos by (simp add: bin_def Let_def r js_index_def)
  also have "(toString2 n ! ?k = CHR ''1'') = bit (nat n) (?L - 1 - ?k)"
    using k bin_digits_nth [of ?k "nat n"] by (simp add: ts)
  also have "\<dots> = bit n (?L - 1 - ?k)" using assms(2) by (simp add: bit_nat_iff)
  finally show ?thesis .
qed

text \<open>
  Claim C8. For \<open>i \<ge> 0\<close> and \<open>n \<ge> 1\<close>, \<open>n.toString(2)\<close> is the binary numeral of \<open>n\<close>
  without leading zeros, most significant digit first: it has \<open>L\<close> digits with
  \<open>2 ^ (L - 1) \<le> n < 2 ^ L\<close>, and its \<open>k\<close>-th character is the bit of weight
  \<open>2 ^ (L - 1 - k)\<close>. \<open>bin(i, n)\<close> is the digit at position \<open>i mod L\<close> as a boolean. At
  \<open>n = 34\<close> the digits are \<open>100010\<close>.
\<close>

theorem bin_digit_msb_first:
  assumes "0 \<le> i" "1 \<le> n"
  shows "(let L = length (toString2 n) in
            2 ^ (L - 1) \<le> n \<and> n < 2 ^ L \<and>
            toString2 n = map (\<lambda>k. if bit n (L - 1 - k) then CHR ''1'' else CHR ''0'') [0..<L] \<and>
            bin i n = Some (bit n (L - 1 - nat (i mod int L)))) \<and>
         toString2 34 = ''100010'' \<and>
         map (\<lambda>i. bin i 34) [0, 1, 2, 3, 4, 5]
           = map Some [True, False, False, False, True, False]"
proof -
  have ex: "toString2 34 = ''100010''" by code_simp
  have cyc: "map (\<lambda>i. bin i 34) [0, 1, 2, 3, 4, 5]
           = map Some [True, False, False, False, True, False]" by code_simp
  show ?thesis
    unfolding Let_def
    using toString2_bounds [OF assms(2)] toString2_digits [OF assms(2)]
      bin_reads_bit [OF assms] ex cyc
    by blast
qed

theorem bin_digit_msb_first_witness:
  "(0 :: int) \<le> 7 \<and> (1 :: int) \<le> 34 \<and> bin 7 34 = Some False"
proof -
  have L: "length (toString2 34) = 6" by code_simp
  have b: "bit (34 :: int) 4 = False" by (simp add: bit_iff_odd)
  show ?thesis using bin_digit_msb_first [of 7 34] by (simp add: L Let_def b)
qed

section \<open>Counters\<close>

lemma counter_step_limit_three:
  assumes "cs name = Some \<lparr>cvalue = v, cstep = 1, climit = Some 3\<rparr>" "0 \<le> v" "v \<le> 3"
  shows "counter cs name (Some 3) None =
           (cs(name \<mapsto> \<lparr>cvalue = (v + 1) mod 4, cstep = 1, climit = Some 3\<rparr>), (v + 1) mod 4)"
proof (cases "v = 3")
  case True
  then show ?thesis using assms by (simp add: counter_def)
next
  case False
  with assms have "(v + 1) mod 4 = v + 1" by simp
  then show ?thesis using assms False by (simp add: counter_def)
qed

lemma map_upt_Suc_shift: "map f [0..<Suc k] = f 0 # map (\<lambda>j. f (Suc j)) [0..<k]"
  by (simp only: upt_conv_Cons [of 0 "Suc k"] map_Suc_upt [symmetric] list.map map_map o_def)

lemma counter_calls_cycle:
  "cs name = Some \<lparr>cvalue = v, cstep = 1, climit = Some 3\<rparr> \<Longrightarrow> 0 \<le> v \<Longrightarrow> v \<le> 3 \<Longrightarrow>
     counter_calls cs name (Some 3) None k = map (\<lambda>j. (v + 1 + int j) mod 4) [0..<k]"
proof (induction k arbitrary: cs v)
  case 0
  then show ?case by simp
next
  case (Suc k)
  let ?v' = "(v + 1) mod 4"
  let ?cs' = "cs(name \<mapsto> \<lparr>cvalue = ?v', cstep = 1, climit = Some 3\<rparr>)"
  have step: "counter cs name (Some 3) None = (?cs', ?v')"
    using Suc.prems by (rule counter_step_limit_three)
  have "counter_calls ?cs' name (Some 3) None k = map (\<lambda>j. (?v' + 1 + int j) mod 4) [0..<k]"
    by (rule Suc.IH) simp_all
  also have "\<dots> = map (\<lambda>j. (v + 1 + int (Suc j)) mod 4) [0..<k]"
  proof -
    have "(?v' + 1 + int j) mod 4 = (v + 1 + int (Suc j)) mod 4" for j
      by presburger
    then show ?thesis by simp
  qed
  finally have tl: "counter_calls ?cs' name (Some 3) None k
      = map (\<lambda>j. (v + 1 + int (Suc j)) mod 4) [0..<k]" .
  have "map (\<lambda>j. (v + 1 + int j) mod 4) [0..<Suc k]
      = ?v' # map (\<lambda>j. (v + 1 + int (Suc j)) mod 4) [0..<k]"
    by (simp add: map_upt_Suc_shift del: upt_Suc)
  then show ?case using step tl by simp
qed

lemma counter_fresh_sequence:
  assumes "cs name = None"
  shows "counter_calls cs name (Some 3) None k = map (\<lambda>j. int j mod 4) [0..<k]"
proof (cases k)
  case 0
  then show ?thesis by simp
next
  case (Suc m)
  let ?cs' = "cs(name \<mapsto> \<lparr>cvalue = 0, cstep = 1, climit = Some 3\<rparr>)"
  have first: "counter cs name (Some 3) None = (?cs', 0)"
    using assms by (simp add: counter_def)
  have "counter_calls ?cs' name (Some 3) None m = map (\<lambda>j. (0 + 1 + int j) mod 4) [0..<m]"
    by (rule counter_calls_cycle) simp_all
  then have tl: "counter_calls ?cs' name (Some 3) None m = map (\<lambda>j. int (Suc j) mod 4) [0..<m]"
    by (simp add: add.commute)
  have "map (\<lambda>j. int j mod 4) [0..<Suc m] = 0 # map (\<lambda>j. int (Suc j) mod 4) [0..<m]"
    by (simp add: map_upt_Suc_shift del: upt_Suc)
  then show ?thesis using first tl Suc by simp
qed

lemma counter_existing:
  assumes "cs name = Some e"
  shows "snd (counter cs name limit step) =
           (let v = (if climit e = limit then cvalue e else 0)
                      + (case step of None \<Rightarrow> cstep e | Some s \<Rightarrow> s)
            in case limit of None \<Rightarrow> v | Some l \<Rightarrow> if v > l then 0 else v)"
    and "map_option cvalue (fst (counter cs name limit step) name)
           = Some (snd (counter cs name limit step))"
  using assms by (auto simp add: counter_def Let_def split: option.splits)

text \<open>
  Claim C1, as the specification states it: from a registry without the name, the calls
  \<open>counter("x", 3)\<close> return \<open>1, 2, 3, 0, 1, 2, 3, 0\<close>. The first call only seeds the
  counter and returns its value 0, so the eight first values are not these.
\<close>

theorem counter_first_call_returns_zero:
  "counter_calls no_counters ''x'' (Some 3) None 8 \<noteq> [1, 2, 3, 0, 1, 2, 3, 0]"
proof -
  have "counter_calls no_counters ''x'' (Some 3) None 8 = map (\<lambda>j. int j mod 4) [0..<8]"
    by (rule counter_fresh_sequence) (simp add: no_counters_def)
  also have "\<dots> = [0, 1, 2, 3, 0, 1, 2, 3]" by code_simp
  finally show ?thesis by simp
qed

text \<open>
  Claim C1, amended. From a registry without the name, the \<open>k\<close> first calls with limit 3
  and the default step return \<open>0, 1, 2, 3, 0, 1, 2, 3, ...\<close>: the \<open>j\<close>-th value, counted
  from 0, is \<open>j mod 4\<close>. On a call that finds the counter, the stored value (0 instead
  when the limit argument differs from the stored limit) is incremented by the step (the
  argument when it is given, the stored step otherwise), becomes 0 when the limit is
  defined and the sum exceeds it, and the result is both stored and returned.
\<close>

theorem counter_sequence_from_zero:
  "counter_calls (cs(name := None)) name (Some 3) None k = map (\<lambda>j. int j mod 4) [0..<k] \<and>
   snd (counter (cs(name \<mapsto> e)) name limit step) =
     (let v = (if climit e = limit then cvalue e else 0)
                + (case step of None \<Rightarrow> cstep e | Some s \<Rightarrow> s)
      in case limit of None \<Rightarrow> v | Some l \<Rightarrow> if v > l then 0 else v) \<and>
   map_option cvalue (fst (counter (cs(name \<mapsto> e)) name limit step) name)
     = Some (snd (counter (cs(name \<mapsto> e)) name limit step))"
  using counter_fresh_sequence [of "cs(name := None)" name k]
    counter_existing [of "cs(name \<mapsto> e)" name e limit step]
  by simp

section \<open>Rewind detection of the pattern player\<close>

text \<open>
  Claim C4. A freshly constructed player has index \<open>-1\<close>. When the clock is behind
  \<open>lastCallTime\<close> (here the clock is at pulse 3 and the player last played at pulse 100)
  the first statement of \<open>areWeThereYet\<close> sets \<open>lastCallTime\<close> to 0 and the index to 0,
  not to \<open>-1\<close>; the element is not due, so the query leaves the index at 0.
\<close>

theorem rewind_sets_index_zero:
  "index new_Player = - 1 \<and>
   pulses_since_origin (clock_at 3 48 1) < lastCallTime playing_player \<and>
   lastCallTime (rewind_check (clock_at 3 48 1) playing_player) = 0 \<and>
   index (rewind_check (clock_at 3 48 1) playing_player) = 0 \<and>
   snd (areWeThereYet (clock_at 3 48 1) playing_player) = False \<and>
   index (fst (areWeThereYet (clock_at 3 48 1) playing_player)) = 0"
  by (simp add: new_Player_def playing_player_def clock_at_def rewind_check_def
      areWeThereYet_def howAboutNow_def notStarted_def pulseToSecond_def
      convertPulseToSecond_def api_ppqn_def Let_def)

section \<open>The palindrome of an array\<close>

text \<open>
  Claim C10. \<open>a.palindrome()\<close> returns a new array holding the elements of \<open>a\<close> followed
  by the same elements in reverse order, and leaves \<open>a\<close> itself reversed; the arrays
  allocated before the call, \<open>a\<close> apart, are unchanged.
\<close>

theorem palindrome_reverses_receiver:
  assumes "self < length h"
  shows "(case palindrome h self of
            (h', res) \<Rightarrow>
              h' ! res = h ! self @ rev (h ! self) \<and>
              h' ! self = rev (h ! self) \<and>
              length h \<le> res \<and> res < length h' \<and>
              (\<forall>a < length h. a \<noteq> self \<longrightarrow> h' ! a = h ! a))"
  using assms
  by (simp add: palindrome_def array_from_def array_reverse_def array_concat_def nth_append)

theorem palindrome_reverses_receiver_witness:
  "(0 :: nat) < length [[1, 2, 3 :: int]] \<and>
   palindrome [[1, 2, 3 :: int]] 0
     = ([[3, 2, 1], [1, 2, 3], [3, 2, 1], [1, 2, 3, 3, 2, 1]], 3)"
  using palindrome_reverses_receiver [of 0 "[[1, 2, 3 :: int]]"]
  by (simp add: palindrome_def array_from_def array_reverse_def array_concat_def)

end
